theory Spec2Isabelle
  imports Main "HOL-Library.Word" "HOL-Library.Sublist"
begin

section \<open>Bytes and the CR LF delimiter\<close>

text \<open>
  Python \<open>bytes\<close> and \<open>bytearray\<close> values are lists of 8-bit words. The
  adapter uses three operations on them: the membership test \<open>sub in buf\<close>,
  \<open>buf.partition(sep)\<close> and concatenation. The first two are defined through the
  lowest index at which \<open>sub\<close> occurs in \<open>buf\<close>, as \<open>bytes.find\<close> computes it.
\<close>

type_synonym byte = "8 word"
type_synonym bytes = "byte list"

definition CRLF :: bytes where
  "CRLF = [13, 10]"

fun find_bytes :: "bytes \<Rightarrow> bytes \<Rightarrow> nat option" where
  "find_bytes sub [] = (if sub = [] then Some 0 else None)"
| "find_bytes sub (x # xs) =
     (if prefix sub (x # xs) then Some 0 else map_option Suc (find_bytes sub xs))"

definition contains_bytes :: "bytes \<Rightarrow> bytes \<Rightarrow> bool" where
  "contains_bytes sub buf = (find_bytes sub buf \<noteq> None)"

text \<open>
  \<open>buf.partition(sep)\<close> splits at the first occurrence of \<open>sep\<close> and returns the
  part before it, the separator and the part after it; without an occurrence it
  returns \<open>buf\<close> and two empty values.
\<close>

definition partition_bytes :: "bytes \<Rightarrow> bytes \<Rightarrow> bytes \<times> bytes \<times> bytes" where
  "partition_bytes sep buf =
     (case find_bytes sep buf of
        None \<Rightarrow> (buf, [], [])
      | Some i \<Rightarrow> (take i buf, sep, drop (i + length sep) buf))"

section \<open>The framer: the inner loop of the TCP to WebSocket forwarder\<close>

text \<open>
  Lines 72 and 73 of the adapter:
  \<^verbatim>\<open>
      while b'\r\n' in buffer:
          message, _, buffer = buffer.partition(b'\r\n')
          ... send message ...
  \<close>
  \<open>decode_loop\<close> is this loop with the messages collected in the order in which
  they are handed to the WebSocket; \<open>decode\<close> starts it with no message collected.
  Its result is the list of frames and the buffer the loop leaves behind.
\<close>

function decode_loop :: "bytes \<Rightarrow> bytes list \<Rightarrow> bytes list \<times> bytes" where
  "decode_loop buffer frames =
     (if contains_bytes CRLF buffer
      then (case partition_bytes CRLF buffer of
              (message, _, rest) \<Rightarrow> decode_loop rest (frames @ [message]))
      else (frames, buffer))"
  by pat_completeness auto
termination
proof (relation "measure (\<lambda>(buffer, frames). length buffer)")
  show "wf (measure (\<lambda>(buffer, frames). length buffer))" by simp
next
  fix buffer :: bytes and frames :: "bytes list" and message y sep rest
  assume c: "contains_bytes CRLF buffer"
    and p: "(message, y) = partition_bytes CRLF buffer" "(sep, rest) = y"
  from c obtain i where i: "find_bytes CRLF buffer = Some i"
    by (auto simp: contains_bytes_def)
  from c have "buffer \<noteq> []" by (auto simp: contains_bytes_def CRLF_def)
  moreover from p i have "rest = drop (i + 2) buffer"
    by (simp add: partition_bytes_def CRLF_def)
  ultimately show "((rest, frames @ [message]), (buffer, frames))
      \<in> measure (\<lambda>(buffer, frames). length buffer)"
    by simp
qed

definition decode :: "bytes \<Rightarrow> bytes list \<times> bytes" where
  "decode buffer = decode_loop buffer []"

text \<open>The other direction appends the delimiter (line 100: \<open>message + b'\r\n'\<close>).\<close>

definition encode :: "bytes \<Rightarrow> bytes" where
  "encode payload = payload @ CRLF"

section \<open>Exceptions, outcomes and events\<close>

text \<open>
  The exceptions the adapter's \<open>except\<close> clauses tell apart:
  \<open>asyncio.CancelledError\<close>, which is a \<open>BaseException\<close> and not an
  \<open>Exception\<close>; \<open>websockets.exceptions.ConnectionClosed\<close>; and any other
  subclass of \<open>Exception\<close>, carried with its class name (\<open>OSError\<close> from a
  refused dial, \<open>UnicodeEncodeError\<close>, ...). The signals that end the interpreter
  (\<open>KeyboardInterrupt\<close>, \<open>SystemExit\<close>) are not errors of a session and are not
  part of this type.
\<close>

datatype exn = CancelledError | ConnectionClosed | Error string

fun is_Exception :: "exn \<Rightarrow> bool" where
  "is_Exception CancelledError = False"
| "is_Exception ConnectionClosed = True"
| "is_Exception (Error name) = True"

text \<open>
  A coroutine returns, raises, or stays suspended at an \<open>await\<close> that the
  environment never completes.
\<close>

datatype outcome = Returned | Raised exn | Suspended


datatype level = INFO | WARNING | ERROR

text \<open>
  The calls a coroutine makes on its collaborators, in the order in which it makes
  them. Log records keep the fixed text of the message; the values interpolated
  into it are left out, except the exception in the error record of the connection
  handler, which is rendered by \<open>str_exn\<close>.
\<close>

datatype event =
    Log level string
  | TcpRead
  | WsSend bytes
  | WsRecv
  | TcpWrite bytes
  | TcpDrain
  | TcpClose
  | TcpWaitClosed
  | OpenConnection
  | CreateTask string
  | Serve
  | ServerClose
  | ServerWaitClosed
  | TaskCancel
  | TaskAwait

section \<open>The TCP to WebSocket forwarder\<close>

text \<open>
  \<open>_forward_tcp_to_ws\<close>, lines 54 to 84. The environment is the list of results
  of the successive \<open>reader.read\<close> calls (bytes, or an exception raised at the
  \<open>await\<close>) and the result of the \<open>k\<close>-th \<open>websocket.send\<close> call
  (\<open>None\<close> when it returns). When the list of reads is used up the coroutine
  stays suspended in \<open>reader.read\<close>.

  \<open>send_loop\<close> is the inner \<open>while\<close> loop with its \<open>try\<close>: a
  \<open>ConnectionClosed\<close> from \<open>send\<close> is logged and followed by \<open>break\<close>, which
  leaves this loop; any other exception leaves it as an exception. The result is
  the exception if any, the buffer, the number of \<open>send\<close> calls made so far and
  the trace.
\<close>

function send_loop ::
  "(nat \<Rightarrow> exn option) \<Rightarrow> bytes \<Rightarrow> nat \<Rightarrow> event list \<Rightarrow>
     exn option \<times> bytes \<times> nat \<times> event list" where
  "send_loop send buffer k tr =
     (if contains_bytes CRLF buffer
      then (case partition_bytes CRLF buffer of
              (message, _, rest) \<Rightarrow>
                (case send k of
                   None \<Rightarrow>
                     send_loop send rest (Suc k) (tr @ [Log INFO ''TCP -> WS'', WsSend message])
                 | Some e \<Rightarrow>
                     if e = ConnectionClosed
                     then (None, rest, Suc k,
                           tr @ [Log INFO ''TCP -> WS'', WsSend message,
                                 Log WARNING ''WebSocket client disconnected during forwarding''])
                     else (Some e, rest, Suc k,
                           tr @ [Log INFO ''TCP -> WS'', WsSend message])))
      else (None, buffer, k, tr))"
  by pat_completeness auto
termination
proof (relation "measure (\<lambda>(send, buffer, k, tr). length buffer)")
  show "wf (measure (\<lambda>(send, buffer, k, tr). length buffer))" by simp
next
  fix send :: "nat \<Rightarrow> exn option" and buffer :: bytes and k :: nat and tr :: "event list"
    and message y sep rest
  assume c: "contains_bytes CRLF buffer"
    and p: "(message, y) = partition_bytes CRLF buffer" "(sep, rest) = y"
  from c obtain i where i: "find_bytes CRLF buffer = Some i"
    by (auto simp: contains_bytes_def)
  from c have "buffer \<noteq> []" by (auto simp: contains_bytes_def CRLF_def)
  moreover from p i have "rest = drop (i + 2) buffer"
    by (simp add: partition_bytes_def CRLF_def)
  ultimately show "((send, rest, Suc k, tr @ [Log INFO ''TCP -> WS'', WsSend message]),
       (send, buffer, k, tr)) \<in> measure (\<lambda>(send, buffer, k, tr). length buffer)"
    by simp
qed

text \<open>
  The outer \<open>while True\<close> loop: one read per iteration; an empty read is logged
  and ends the loop; otherwise the data is appended to the buffer and the inner loop
  runs. Both ways out of the inner loop that are not exceptions lead to the next read.
\<close>

fun read_loop ::
  "(nat \<Rightarrow> exn option) \<Rightarrow> (exn + bytes) list \<Rightarrow> bytes \<Rightarrow> nat \<Rightarrow> event list \<Rightarrow>
     outcome \<times> event list" where
  "read_loop send [] buffer k tr = (Suspended, tr @ [TcpRead])"
| "read_loop send (Inl e # rs) buffer k tr = (Raised e, tr @ [TcpRead])"
| "read_loop send (Inr data # rs) buffer k tr =
     (if data = []
      then (Returned, tr @ [TcpRead, Log INFO ''TCP connection closed by peer''])
      else (case send_loop send (buffer @ data) k (tr @ [TcpRead]) of
              (Some e, buffer', k', tr') \<Rightarrow> (Raised e, tr')
            | (None, buffer', k', tr') \<Rightarrow> read_loop send rs buffer' k' tr'))"

definition forward_tcp_to_ws ::
  "(nat \<Rightarrow> exn option) \<Rightarrow> (exn + bytes) list \<Rightarrow> outcome \<times> event list" where
  "forward_tcp_to_ws send reads =
     (case read_loop send reads [] 0 [Log INFO ''Started forwarding from TCP to WS''] of
        (Suspended, tr) \<Rightarrow> (Suspended, tr)
      | (Returned, tr) \<Rightarrow> (Returned, tr @ [Log INFO ''TCP connection handler exited''])
      | (Raised e, tr) \<Rightarrow>
          if e = CancelledError \<or> e = ConnectionClosed
          then (Returned, tr @ [Log WARNING ''Error during TCP to WebSocket forwarding'',
                                Log INFO ''TCP connection handler exited''])
          else (Raised e, tr @ [Log INFO ''TCP connection handler exited'']))"

section \<open>The WebSocket to TCP forwarder\<close>

text \<open>
  A WebSocket message is a \<open>str\<close> (a sequence of Unicode code points) or a
  \<open>bytes\<close> value. \<open>message.encode()\<close> is UTF-8 and strict: a surrogate code point
  raises \<open>UnicodeEncodeError\<close>. A number from \<open>0x110000\<close> on is no code point
  of a Python string; the encoder refuses it as well.
\<close>

datatype message = Text "nat list" | Binary bytes

definition utf8_char :: "nat \<Rightarrow> exn + bytes" where
  "utf8_char c =
     (if c < 0x80 then Inr [of_nat c]
      else if c < 0x800 then Inr [of_nat (0xC0 + c div 0x40), of_nat (0x80 + c mod 0x40)]
      else if 0xD800 \<le> c \<and> c \<le> 0xDFFF then Inl (Error ''UnicodeEncodeError'')
      else if c < 0x10000
        then Inr [of_nat (0xE0 + c div 0x1000), of_nat (0x80 + c div 0x40 mod 0x40),
                  of_nat (0x80 + c mod 0x40)]
      else if c < 0x110000
        then Inr [of_nat (0xF0 + c div 0x40000), of_nat (0x80 + c div 0x1000 mod 0x40),
                  of_nat (0x80 + c div 0x40 mod 0x40), of_nat (0x80 + c mod 0x40)]
      else Inl (Error ''UnicodeEncodeError''))"

fun str_encode :: "nat list \<Rightarrow> exn + bytes" where
  "str_encode [] = Inr []"
| "str_encode (c # cs) =
     (case utf8_char c of
        Inl e \<Rightarrow> Inl e
      | Inr b \<Rightarrow> (case str_encode cs of Inl e \<Rightarrow> Inl e | Inr bs \<Rightarrow> Inr (b @ bs)))"

text \<open>Lines 97 and 98: \<open>if isinstance(message, str): message = message.encode()\<close>.\<close>

fun to_bytes :: "message \<Rightarrow> exn + bytes" where
  "to_bytes (Text s) = str_encode s"
| "to_bytes (Binary b) = Inr b"

text \<open>
  \<open>_forward_ws_to_tcp\<close>, lines 86 to 107. The environment is the list of results
  of the iteration \<open>async for message in websocket\<close> (a message, the end of the
  iteration when the connection is closed normally, or an exception), the result of
  the \<open>k\<close>-th \<open>writer.drain\<close> and the result of \<open>writer.wait_closed\<close>.
\<close>

datatype recv = Message message | EndOfMessages | RecvRaised exn

fun message_loop ::
  "(nat \<Rightarrow> exn option) \<Rightarrow> recv list \<Rightarrow> nat \<Rightarrow> event list \<Rightarrow> outcome \<times> event list" where
  "message_loop drain [] k tr = (Suspended, tr @ [WsRecv])"
| "message_loop drain (EndOfMessages # rs) k tr = (Returned, tr @ [WsRecv])"
| "message_loop drain (RecvRaised e # rs) k tr = (Raised e, tr @ [WsRecv])"
| "message_loop drain (Message m # rs) k tr =
     (case to_bytes m of
        Inl e \<Rightarrow> (Raised e, tr @ [WsRecv])
      | Inr b \<Rightarrow>
          (case drain k of
             None \<Rightarrow>
               message_loop drain rs (Suc k)
                 (tr @ [WsRecv, Log INFO ''WS -> TCP'', TcpWrite (b @ CRLF), TcpDrain])
           | Some e \<Rightarrow>
               (Raised e, tr @ [WsRecv, Log INFO ''WS -> TCP'', TcpWrite (b @ CRLF), TcpDrain])))"

text \<open>
  The \<open>finally\<close> block, lines 104 to 107: log, \<open>writer.close()\<close>,
  \<open>await writer.wait_closed()\<close>. An exception raised by \<open>wait_closed\<close> replaces
  the outcome the block was entered with.
\<close>

definition close_writer :: "exn option \<Rightarrow> outcome \<Rightarrow> event list \<Rightarrow> outcome \<times> event list" where
  "close_writer wait_closed out tr =
     (let tr' = tr @ [Log INFO ''WebSocket connection handler exited'', TcpClose, TcpWaitClosed]
      in case wait_closed of None \<Rightarrow> (out, tr') | Some e \<Rightarrow> (Raised e, tr'))"

definition forward_ws_to_tcp ::
  "(nat \<Rightarrow> exn option) \<Rightarrow> exn option \<Rightarrow> recv list \<Rightarrow> outcome \<times> event list" where
  "forward_ws_to_tcp drain wait_closed msgs =
     (case message_loop drain msgs 0 [Log INFO ''Started forwarding from WS to TCP''] of
        (Suspended, tr) \<Rightarrow> (Suspended, tr)
      | (Returned, tr) \<Rightarrow> close_writer wait_closed Returned tr
      | (Raised e, tr) \<Rightarrow>
          if e = CancelledError \<or> e = ConnectionClosed
          then close_writer wait_closed Returned
                 (tr @ [Log WARNING ''Error during WebSocket to TCP forwarding''])
          else close_writer wait_closed (Raised e) tr)"

text \<open>The payloads of the \<open>writer.write\<close> calls of a trace, in order.\<close>

fun tcp_writes :: "event list \<Rightarrow> bytes list" where
  "tcp_writes [] = []"
| "tcp_writes (TcpWrite b # tr) = b # tcp_writes tr"
| "tcp_writes (e # tr) = tcp_writes tr"

section \<open>The session coordinator\<close>

text \<open>
  \<open>_handle_ws_connection\<close>, lines 109 to 130. The environment of one session is
  the result of \<open>asyncio.open_connection\<close>, the environments of the two
  forwarders, which of the two reaches \<open>asyncio.gather\<close> first when both raise,
  and whether the handler is cancelled while it awaits \<open>gather\<close>.
\<close>

record session_env =
  dial :: "exn option"
  tcp_reads :: "(exn + bytes) list"
  ws_send :: "nat \<Rightarrow> exn option"
  ws_recv :: "recv list"
  tcp_drain :: "nat \<Rightarrow> exn option"
  tcp_wait_closed :: "exn option"
  tcp_first :: bool
  cancelled :: bool






section \<open>The bridge lifecycle\<close>

text \<open>
  The adapter object: its configuration and the two handles \<open>_ws_server\<close> and
  \<open>_ws_server_runner_task\<close>, each \<open>None\<close> or an object in one of the states
  below. A task wraps the coroutine \<open>_ws_server_runner\<close>: created and not yet
  run, suspended in \<open>websockets.serve\<close>, suspended in \<open>wait_closed\<close>, returned, or
  cancelled. The coroutine catches \<open>Exception\<close>, so a task of it ends by returning or
  by cancellation. A server is serving, closing (\<open>close()\<close> was called and the close
  is not complete) or closed. \<open>events\<close> records the calls made on the event loop
  and the server.
\<close>

datatype task_state = Created | AwaitingServe | AwaitingClosed | Finished | Cancelled

datatype server_state = Serving | Closing | Closed

record adapter =
  tcp_host :: string
  tcp_port :: nat
  ws_host :: string
  ws_port :: nat
  buffer_size :: nat
  ws_server :: "server_state option"
  ws_server_runner_task :: "task_state option"
  events :: "event list"

definition init :: "string \<Rightarrow> nat \<Rightarrow> string \<Rightarrow> nat \<Rightarrow> nat \<Rightarrow> adapter" where
  "init th tp wh wp bs =
     \<lparr>tcp_host = th, tcp_port = tp, ws_host = wh, ws_port = wp, buffer_size = bs,
      ws_server = None, ws_server_runner_task = None, events = []\<rparr>"

fun task_done :: "task_state \<Rightarrow> bool" where
  "task_done Finished = True"
| "task_done Cancelled = True"
| "task_done t = False"

text \<open>
  \<open>start\<close>, lines 144 to 152:
  \<open>if not self._ws_server_runner_task or self._ws_server_runner_task.done()\<close>.
\<close>

definition start :: "adapter \<Rightarrow> adapter" where
  "start a =
     (if (case ws_server_runner_task a of None \<Rightarrow> True | Some t \<Rightarrow> task_done t)
      then a\<lparr>ws_server_runner_task := Some Created,
             events := events a @ [CreateTask ''_ws_server_runner'',
                                   Log INFO ''Server started successfully.'']\<rparr>
      else a)"

text \<open>
  \<open>_ws_server_runner\<close>, lines 132 to 142, one step of the coroutine at a time: the
  event loop runs the new task up to \<open>await websockets.serve(...)\<close>; \<open>serve\<close>
  returns the server, which is stored in \<open>_ws_server\<close>, or raises; the server the
  coroutine waits on is closed.
\<close>

datatype loop_event = TaskRuns | ServeDone "exn option" | ServerClosed

fun ws_server_runner :: "loop_event \<Rightarrow> adapter \<Rightarrow> adapter" where
  "ws_server_runner ev a =
     (case (ws_server_runner_task a, ev) of
        (Some Created, TaskRuns) \<Rightarrow>
          a\<lparr>ws_server_runner_task := Some AwaitingServe, events := events a @ [Serve]\<rparr>
      | (Some AwaitingServe, ServeDone None) \<Rightarrow>
          a\<lparr>ws_server := Some Serving, ws_server_runner_task := Some AwaitingClosed,
            events := events a @ [Log INFO ''WebSocket server started'']\<rparr>
      | (Some AwaitingServe, ServeDone (Some e)) \<Rightarrow>
          if is_Exception e
          then a\<lparr>ws_server_runner_task := Some Finished,
                 events := events a @ [Log ERROR ''Error starting WebSocket server'']\<rparr>
          else a\<lparr>ws_server_runner_task := Some Cancelled\<rparr>
      | (Some AwaitingClosed, ServerClosed) \<Rightarrow> a\<lparr>ws_server_runner_task := Some Finished\<rparr>
      | _ \<Rightarrow> a)"

text \<open>
  \<open>stop\<close>, lines 154 to 174. Its environment: the outcome of
  \<open>await self._ws_server.wait_closed()\<close> at line 162 on a server that is not yet
  closed (it returns; or it raises, as when \<open>stop\<close> is cancelled there; or it
  stays suspended, as while a connection handler does not end); whether the runner
  waiting on the same server resumes and returns before \<open>stop\<close> goes on; and
  whether \<open>stop\<close> is cancelled while it awaits the runner task at line 168.

  \<open>task.cancel()\<close> does nothing to a task that is done and cancels any other;
  awaiting a task returns when it has returned and raises \<open>CancelledError\<close> when
  it was cancelled.
\<close>

record stop_env =
  server_wait_closed :: outcome
  runner_first :: bool
  stop_cancelled :: bool

definition cancel_task :: "task_state \<Rightarrow> task_state" where
  "cancel_task t = (if task_done t then t else Cancelled)"

fun await_task :: "task_state \<Rightarrow> outcome" where
  "await_task Finished = Returned"
| "await_task Cancelled = Raised CancelledError"
| "await_task t = Suspended"

text \<open>
  Lines 160 to 163. The \<open>await\<close> of line 162 is inside no \<open>try\<close>: when it does not
  return, neither does \<open>stop\<close>. On a server that is closed already it returns at once.
\<close>

definition close_server :: "stop_env \<Rightarrow> adapter \<Rightarrow> outcome \<times> adapter" where
  "close_server env a =
     (case ws_server a of
        None \<Rightarrow> (Returned, a)
      | Some srv \<Rightarrow>
          (let a1 = a\<lparr>events := events a @ [ServerClose, ServerWaitClosed]\<rparr>
           in case (if srv = Closed then Returned else server_wait_closed env) of
                Returned \<Rightarrow>
                  (Returned,
                   a1\<lparr>ws_server := Some Closed,
                      ws_server_runner_task :=
                        (if runner_first env \<and> ws_server_runner_task a = Some AwaitingClosed
                         then Some Finished else ws_server_runner_task a),
                      events := events a1 @ [Log INFO ''Server stopped gracefully.'']\<rparr>)
              | Raised e \<Rightarrow> (Raised e, a1\<lparr>ws_server := Some Closing\<rparr>)
              | Suspended \<Rightarrow> (Suspended, a1\<lparr>ws_server := Some Closing\<rparr>)))"

definition clear_handles :: "adapter \<Rightarrow> adapter" where
  "clear_handles a =
     a\<lparr>ws_server := None, ws_server_runner_task := None,
       events := events a @ [Log INFO ''Server resources cleaned up.'']\<rparr>"

definition stop :: "stop_env \<Rightarrow> adapter \<Rightarrow> outcome \<times> adapter" where
  "stop env a =
     (case close_server env a of
        (Raised e, a1) \<Rightarrow> (Raised e, a1)
      | (Suspended, a1) \<Rightarrow> (Suspended, a1)
      | (Returned, a1) \<Rightarrow>
          (case ws_server_runner_task a1 of
             None \<Rightarrow> (Returned, clear_handles a1)
           | Some t \<Rightarrow>
               (let t' = cancel_task t;
                    a2 = a1\<lparr>ws_server_runner_task := Some t',
                            events := events a1 @ [TaskCancel, TaskAwait]\<rparr>
                in case (if stop_cancelled env then Raised CancelledError else await_task t') of
                     Returned \<Rightarrow> (Returned, clear_handles a2)
                   | Raised e \<Rightarrow>
                       if e = CancelledError
                       then (Returned,
                             clear_handles
                               (a2\<lparr>events := events a2 @
                                     [Log INFO ''WebSocket server task was cancelled.'']\<rparr>))
                       else (Raised e, a2)
                   | Suspended \<Rightarrow> (Suspended, a2))))"

section \<open>Properties of the framer\<close>

lemma decode_loop_no_delim:
  "\<not> contains_bytes CRLF buffer \<Longrightarrow> decode_loop buffer frames = (frames, buffer)"
  by simp

lemma contains_CRLF_Cons:
  "contains_bytes CRLF (x # xs) \<longleftrightarrow> prefix CRLF (x # xs) \<or> contains_bytes CRLF xs"
  by (simp add: contains_bytes_def)

lemma contains_CRLF_Nil: "\<not> contains_bytes CRLF []"
  by (simp add: contains_bytes_def CRLF_def)

text \<open>
  A delimiter cannot begin inside a delimiter-free frame and end in the delimiter that
  follows it: the first occurrence in \<open>f @ CRLF @ s\<close> is the one written.
\<close>

lemma prefix_CRLF_append:
  "\<not> contains_bytes CRLF (x # xs) \<Longrightarrow> \<not> prefix CRLF (x # xs @ CRLF @ s)"
  by (cases xs) (auto simp: contains_bytes_def CRLF_def split: if_splits)

lemma find_CRLF_append:
  "\<not> contains_bytes CRLF f \<Longrightarrow> find_bytes CRLF (f @ CRLF @ s) = Some (length f)"
proof (induction f)
  case Nil
  show ?case by (simp add: CRLF_def)
next
  case (Cons x xs)
  from Cons.prems have "\<not> contains_bytes CRLF xs"
    by (simp add: contains_CRLF_Cons)
  with Cons.IH have "find_bytes CRLF (xs @ CRLF @ s) = Some (length xs)" by simp
  with prefix_CRLF_append [OF Cons.prems, of s] show ?case by simp
qed

lemma partition_CRLF_append:
  "\<not> contains_bytes CRLF f \<Longrightarrow> partition_bytes CRLF (f @ CRLF @ s) = (f, CRLF, s)"
  by (simp add: partition_bytes_def find_CRLF_append)

lemma contains_CRLF_append:
  "\<not> contains_bytes CRLF f \<Longrightarrow> contains_bytes CRLF (f @ CRLF @ s)"
  by (simp add: contains_bytes_def find_CRLF_append)

lemma decode_loop_frame:
  "\<not> contains_bytes CRLF f \<Longrightarrow>
     decode_loop (f @ CRLF @ s) frames = decode_loop s (frames @ [f])"
  by (subst decode_loop.simps) (simp add: contains_CRLF_append partition_CRLF_append)

lemma find_CRLF_first:
  "find_bytes CRLF buf = Some i \<Longrightarrow>
     buf = take i buf @ CRLF @ drop (i + 2) buf \<and> \<not> contains_bytes CRLF (take i buf)"
proof (induction buf arbitrary: i)
  case Nil
  then show ?case by (simp add: CRLF_def)
next
  case (Cons x xs)
  show ?case
  proof (cases "prefix CRLF (x # xs)")
    case True
    with Cons.prems have "i = 0" by simp
    moreover from True obtain s where "x # xs = CRLF @ s" by (auto simp: prefix_def)
    ultimately show ?thesis by (simp add: contains_bytes_def CRLF_def)
  next
    case False
    with Cons.prems obtain j where j: "find_bytes CRLF xs = Some j" "i = Suc j" by auto
    from Cons.IH [OF j(1)] have ih: "xs = take j xs @ CRLF @ drop (j + 2) xs"
      "\<not> contains_bytes CRLF (take j xs)" by simp_all
    have np: "\<not> prefix CRLF (x # take j xs)"
    proof
      assume "prefix CRLF (x # take j xs)"
      then have "prefix CRLF (x # xs)"
        by (metis append_Cons append_take_drop_id prefix_prefix)
      with False show False ..
    qed
    from ih(1) have "x # xs = (x # take j xs) @ CRLF @ drop (j + 2) xs" by simp
    with j(2) ih(2) np show ?thesis by (simp add: contains_CRLF_Cons)
  qed
qed

lemma partition_CRLF_first:
  assumes "contains_bytes CRLF buffer"
  obtains m r where "partition_bytes CRLF buffer = (m, CRLF, r)"
    and "buffer = m @ CRLF @ r" and "\<not> contains_bytes CRLF m"
proof -
  from assms obtain i where i: "find_bytes CRLF buffer = Some i"
    by (auto simp: contains_bytes_def)
  from find_CRLF_first [OF i]
  have "buffer = take i buffer @ CRLF @ drop (i + 2) buffer"
    and "\<not> contains_bytes CRLF (take i buffer)" by simp_all
  moreover from i have "partition_bytes CRLF buffer = (take i buffer, CRLF, drop (i + 2) buffer)"
    by (simp add: partition_bytes_def CRLF_def)
  ultimately show thesis using that by blast
qed

lemma decode_loop_acc:
  "decode_loop buffer frames = (frames @ fst (decode_loop buffer []), snd (decode_loop buffer []))"
proof (induction "length buffer" arbitrary: buffer frames rule: less_induct)
  case less
  show ?case
  proof (cases "contains_bytes CRLF buffer")
    case False
    then show ?thesis by simp
  next
    case True
    then obtain m r where p: "partition_bytes CRLF buffer = (m, CRLF, r)"
      and b: "buffer = m @ CRLF @ r" by (rule partition_CRLF_first)
    have "length (m @ CRLF @ r) = length m + 2 + length r" by (simp add: CRLF_def)
    with b have "length r < length buffer" by simp
    note ih = less [OF this]
    have "decode_loop buffer frames = decode_loop r (frames @ [m])"
      by (subst decode_loop.simps) (simp add: True p)
    moreover have "decode_loop buffer [] = decode_loop r [m]"
      by (subst decode_loop.simps) (simp add: True p)
    ultimately show ?thesis using ih [of "frames @ [m]"] ih [of "[m]"] by simp
  qed
qed

lemma decode_rec:
  "decode buffer =
     (if contains_bytes CRLF buffer
      then (case partition_bytes CRLF buffer of
              (message, _, rest) \<Rightarrow> (message # fst (decode rest), snd (decode rest)))
      else ([], buffer))"
proof (cases "contains_bytes CRLF buffer")
  case False
  then show ?thesis by (simp add: decode_def)
next
  case True
  obtain m sp r where p: "partition_bytes CRLF buffer = (m, sp, r)"
    by (cases "partition_bytes CRLF buffer") auto
  have "decode_loop buffer [] = decode_loop r [m]"
    by (subst decode_loop.simps) (simp add: True p)
  with True p show ?thesis using decode_loop_acc [of r "[m]"] by (simp add: decode_def)
qed

lemma decode_frame:
  "\<not> contains_bytes CRLF f \<Longrightarrow>
     decode (f @ CRLF @ s) = (f # fst (decode s), snd (decode s))"
  using decode_loop_frame [of f s "[]"] decode_loop_acc [of s "[f]"] by (simp add: decode_def)

lemma decode_no_delim: "\<not> contains_bytes CRLF buffer \<Longrightarrow> decode buffer = ([], buffer)"
  by (simp add: decode_def)

text \<open>
  C1 (round-trip framing). For every payload \<open>P\<close> without the CR LF sequence, the
  decoder run on the encoding of \<open>P\<close>, that is on \<open>P\<close> followed by CR LF, gives
  exactly the one frame \<open>P\<close> and leaves an empty buffer.
\<close>

theorem roundtrip_framing:
  "\<not> contains_bytes CRLF P \<Longrightarrow> decode (encode P) = ([P], [])"
  using decode_frame [of P "[]"] by (simp add: encode_def decode_no_delim contains_CRLF_Nil)

theorem roundtrip_framing_witness:
  "\<not> contains_bytes CRLF [72, 105, 13] \<and> decode (encode [72, 105, 13]) = ([[72, 105, 13]], [])"
proof -
  have h: "\<not> contains_bytes CRLF [72, 105, 13]"
    by (simp add: contains_bytes_def CRLF_def)
  from h roundtrip_framing [OF h] show ?thesis by simp
qed

lemma decode_sound:
  "list_all (\<lambda>f. \<not> contains_bytes CRLF f) (fst (decode buffer)) \<and>
   \<not> contains_bytes CRLF (snd (decode buffer)) \<and>
   buffer = concat (map encode (fst (decode buffer))) @ snd (decode buffer)"
proof (induction "length buffer" arbitrary: buffer rule: less_induct)
  case less
  show ?case
  proof (cases "contains_bytes CRLF buffer")
    case False
    then show ?thesis by (simp add: decode_no_delim)
  next
    case True
    then obtain m r where p: "partition_bytes CRLF buffer = (m, CRLF, r)"
      and b: "buffer = m @ CRLF @ r" and m: "\<not> contains_bytes CRLF m"
      by (rule partition_CRLF_first)
    have "length (m @ CRLF @ r) = length m + 2 + length r" by (simp add: CRLF_def)
    with b have "length r < length buffer" by simp
    note ih = less [OF this]
    from m have d: "decode (m @ CRLF @ r) = (m # fst (decode r), snd (decode r))"
      by (rule decode_frame)
    have "list_all (\<lambda>f. \<not> contains_bytes CRLF f) (fst (decode (m @ CRLF @ r)))"
      using ih m by (simp add: d)
    moreover have "\<not> contains_bytes CRLF (snd (decode (m @ CRLF @ r)))"
      using ih by (simp add: d)
    moreover have "m @ CRLF @ r =
        concat (map encode (fst (decode (m @ CRLF @ r)))) @ snd (decode (m @ CRLF @ r))"
      using ih by (simp add: d encode_def)
    ultimately show ?thesis using b by simp
  qed
qed

lemma decode_complete:
  "list_all (\<lambda>f. \<not> contains_bytes CRLF f) frames \<Longrightarrow> \<not> contains_bytes CRLF rest \<Longrightarrow>
     decode (concat (map encode frames) @ rest) = (frames, rest)"
proof (induction frames)
  case Nil
  then show ?case by (simp add: decode_no_delim)
next
  case (Cons f fs)
  then have f: "\<not> contains_bytes CRLF f"
    and ih: "decode (concat (map encode fs) @ rest) = (fs, rest)" by simp_all
  have e: "concat (map encode (f # fs)) @ rest = f @ CRLF @ (concat (map encode fs) @ rest)"
    by (simp add: encode_def)
  show ?case unfolding e using decode_frame [OF f, of "concat (map encode fs) @ rest"] ih
    by simp
qed

text \<open>
  C6 (greedy left-to-right decode). For every buffer, the decoder's result is the
  one way to cut the buffer, from the left, into frames that are each followed by a
  delimiter and a rest after the last delimiter: no frame contains the delimiter,
  the rest contains none (so every occurrence has been split on), and the frames,
  each with its delimiter, followed by the rest, are the buffer again.
\<close>

theorem greedy_decode:
  "decode buffer = (frames, rest) \<longleftrightarrow>
     list_all (\<lambda>f. \<not> contains_bytes CRLF f) frames \<and> \<not> contains_bytes CRLF rest \<and>
     buffer = concat (map encode frames) @ rest"
proof
  assume "decode buffer = (frames, rest)"
  with decode_sound [of buffer] show
    "list_all (\<lambda>f. \<not> contains_bytes CRLF f) frames \<and> \<not> contains_bytes CRLF rest \<and>
     buffer = concat (map encode frames) @ rest" by simp
next
  assume "list_all (\<lambda>f. \<not> contains_bytes CRLF f) frames \<and> \<not> contains_bytes CRLF rest \<and>
     buffer = concat (map encode frames) @ rest"
  then show "decode buffer = (frames, rest)" by (simp add: decode_complete)
qed

theorem greedy_decode_witness:
  "decode [97, 13, 10, 13, 10, 98, 13, 13, 10, 10] = ([[97], [], [98, 13]], [10])"
  by (simp add: greedy_decode contains_bytes_def CRLF_def encode_def)

text \<open>
  C5 (partial-frame retention), amended. For every buffer \<open>B\<close> without a
  delimiter, one decode step gives no frame and keeps \<open>B\<close>; when the next bytes
  are \<open>D\<close>, a delimiter and \<open>T\<close>, where the delimiter written is the first one
  of the accumulated buffer (\<open>B @ D\<close> has none) and \<open>T\<close> has none, decoding the
  kept buffer extended by them gives the single frame \<open>B @ D\<close> and keeps \<open>T\<close>.
  With \<open>D\<close> and \<open>T\<close> empty the new bytes are the missing delimiter alone.
\<close>

theorem partial_frame_retention:
  assumes "\<not> contains_bytes CRLF B"
  shows "decode B = ([], B) \<and>
    (\<forall>D T. \<not> contains_bytes CRLF (B @ D) \<and> \<not> contains_bytes CRLF T \<longrightarrow>
       decode (snd (decode B) @ D @ CRLF @ T) = ([B @ D], T))"
proof -
  have a: "decode B = ([], B)" using assms by (rule decode_no_delim)
  have "decode (B @ D @ CRLF @ T) = ([B @ D], T)"
    if "\<not> contains_bytes CRLF (B @ D)" "\<not> contains_bytes CRLF T" for D T
    using decode_frame [OF that(1), of T] decode_no_delim [OF that(2)] by simp
  with a show ?thesis by simp
qed

theorem partial_frame_retention_witness:
  "\<not> contains_bytes CRLF [97, 13] \<and> decode [97, 13] = ([], [97, 13]) \<and>
   decode (snd (decode [97, 13]) @ [] @ CRLF @ []) = ([[97, 13]], []) \<and>
   decode (snd (decode [97, 13]) @ [98] @ CRLF @ [99]) = ([[97, 13, 98]], [99])"
proof -
  have h: "\<not> contains_bytes CRLF [97, 13]" by (simp add: contains_bytes_def CRLF_def)
  have h1: "\<not> contains_bytes CRLF ([97, 13] @ [])" "\<not> contains_bytes CRLF []"
    "\<not> contains_bytes CRLF ([97, 13] @ [98])" "\<not> contains_bytes CRLF [99]"
    by (simp_all add: contains_bytes_def CRLF_def)
  note r = partial_frame_retention [OF h]
  note a = r [THEN conjunct1]
  note b = r [THEN conjunct2, rule_format]
  have c: "decode (snd (decode [97, 13]) @ [] @ CRLF @ []) = ([[97, 13] @ []], [])"
    using h1(1) h1(2) by (intro b conjI)
  have d: "decode (snd (decode [97, 13]) @ [98] @ CRLF @ [99]) = ([[97, 13] @ [98]], [99])"
    using h1(3) h1(4) by (intro b conjI)
  from h a c d show ?thesis by simp
qed

text \<open>
  C5, as it is worded, for any appended bytes that contain the delimiter. The kept
  buffer ends in CR and the appended bytes are LF, CR, LF: the bytes before their
  delimiter are the single LF, yet the decoder finds a delimiter made of the kept CR
  and the new LF, and gives two frames, the first of them shorter than the kept
  buffer, and not the one frame made of the kept buffer and the LF.
\<close>

theorem partial_frame_retention_counterexample:
  "\<not> contains_bytes CRLF [97, 13] \<and> decode [97, 13] = ([], [97, 13]) \<and>
   decode (snd (decode [97, 13]) @ [10] @ CRLF) = ([[97], []], []) \<and>
   decode (snd (decode [97, 13]) @ [10] @ CRLF) \<noteq> ([[97, 13] @ [10]], [])"
proof -
  have n: "\<not> contains_bytes CRLF [97, 13]" by (simp add: contains_bytes_def CRLF_def)
  then have d: "decode [97, 13] = ([], [97, 13])" by (rule decode_no_delim)
  have "decode ([97, 13] @ [10] @ CRLF) = ([[97], []], [])"
    using decode_complete [of "[[97], []]" "[]"]
    by (simp add: contains_bytes_def CRLF_def encode_def)
  with n d show ?thesis by simp
qed

text \<open>
  The forwarder's inner loop, when every \<open>send\<close> returns, sends the frames of
  \<open>decode\<close> in order and keeps the buffer \<open>decode\<close> keeps.
\<close>

lemma send_loop_decode:
  "send_loop (\<lambda>k. None) buffer k tr =
     (None, snd (decode buffer), k + length (fst (decode buffer)),
      tr @ concat (map (\<lambda>m. [Log INFO ''TCP -> WS'', WsSend m]) (fst (decode buffer))))"
proof (induction "length buffer" arbitrary: buffer k tr rule: less_induct)
  case less
  show ?case
  proof (cases "contains_bytes CRLF buffer")
    case False
    then show ?thesis by (simp add: decode_no_delim)
  next
    case True
    then obtain m r where p: "partition_bytes CRLF buffer = (m, CRLF, r)"
      and b: "buffer = m @ CRLF @ r" and m: "\<not> contains_bytes CRLF m"
      by (rule partition_CRLF_first)
    have "length (m @ CRLF @ r) = length m + 2 + length r" by (simp add: CRLF_def)
    with b have "length r < length buffer" by simp
    note ih = less [OF this]
    have d: "decode buffer = (m # fst (decode r), snd (decode r))"
      using decode_frame [OF m, of r] b by simp
    have "send_loop (\<lambda>k. None) buffer k tr =
        send_loop (\<lambda>k. None) r (Suc k) (tr @ [Log INFO ''TCP -> WS'', WsSend m])"
      by (subst send_loop.simps) (simp add: True p)
    then show ?thesis by (simp add: ih d del: send_loop.simps)
  qed
qed

section \<open>Properties of the WebSocket to TCP forwarder\<close>

lemma tcp_writes_append: "tcp_writes (xs @ ys) = tcp_writes xs @ tcp_writes ys"
  by (induction xs rule: tcp_writes.induct) simp_all

lemma tcp_writes_iterations:
  "tcp_writes (concat (map (\<lambda>b. [WsRecv, Log INFO ''WS -> TCP'', TcpWrite (b @ CRLF), TcpDrain]) bs))
     = map encode bs"
  by (induction bs) (simp_all add: encode_def)

lemma message_loop_messages:
  "\<forall>k. drain k = None \<Longrightarrow> map to_bytes ms = map Inr bs \<Longrightarrow>
     message_loop drain (map Message ms @ rs) k tr =
       message_loop drain rs (k + length ms)
         (tr @ concat (map (\<lambda>b. [WsRecv, Log INFO ''WS -> TCP'', TcpWrite (b @ CRLF), TcpDrain]) bs))"
proof (induction ms arbitrary: bs k tr)
  case Nil
  then show ?case by simp
next
  case (Cons m ms)
  from Cons.prems(2) obtain b bs' where bs: "bs = b # bs'" "to_bytes m = Inr b"
    "map to_bytes ms = map Inr bs'" by (cases bs) auto
  from Cons.IH [OF Cons.prems(1) bs(3)] Cons.prems(1) bs(1,2) show ?case by simp
qed

lemma forward_ws_to_tcp_writes:
  assumes "\<forall>k. drain k = None" and "map to_bytes ms = map Inr bs"
  shows "tcp_writes (snd (forward_ws_to_tcp drain wc (map Message ms))) = map encode bs"
    and "tcp_writes (snd (forward_ws_to_tcp drain wc (map Message ms @ EndOfMessages # rs)))
           = map encode bs"
  using message_loop_messages [OF assms, of "[]"]
    message_loop_messages [OF assms, of "EndOfMessages # rs"]
  by (simp_all add: forward_ws_to_tcp_def close_writer_def Let_def tcp_writes_append
      tcp_writes_iterations split: option.splits)

text \<open>\<open>str_encode\<close> on one, two, three and four byte code points and on a surrogate.\<close>

lemma utf8_examples:
  "str_encode [72, 101, 108, 108, 111] = Inr [72, 101, 108, 108, 111]"
  "str_encode [0xE9] = Inr [0xC3, 0xA9]"
  "str_encode [0x20AC] = Inr [0xE2, 0x82, 0xAC]"
  "str_encode [0x1F600] = Inr [0xF0, 0x9F, 0x98, 0x80]"
  "str_encode [0xD800] = Inl (Error ''UnicodeEncodeError'')"
  by (simp_all add: utf8_char_def)

text \<open>
  C7 (payload normalisation and delimiter). When the received messages \<open>ms\<close>
  convert to the byte strings \<open>bs\<close> and every \<open>drain\<close> returns, the forwarder
  writes to the TCP stream, in order, each converted payload followed by exactly
  CR LF, whether the iteration is still open or has ended; a text message converts
  by UTF-8 (\<open>str_encode\<close>) and a binary message is its own conversion. The text
  message \<open>Hello\<close> is written as \<open>Hello\<close> followed by CR LF.
\<close>

theorem ws_to_tcp_normalize_and_delimit:
  assumes "\<forall>k. drain k = None" and "map to_bytes ms = map Inr bs"
  shows "tcp_writes (snd (forward_ws_to_tcp drain wc (map Message ms))) = map encode bs \<and>
     tcp_writes (snd (forward_ws_to_tcp drain wc (map Message ms @ EndOfMessages # rs)))
       = map encode bs \<and>
     (\<forall>s. to_bytes (Text s) = str_encode s) \<and> (\<forall>b. to_bytes (Binary b) = Inr b)"
  using forward_ws_to_tcp_writes [OF assms] by simp

theorem ws_to_tcp_normalize_and_delimit_witness:
  "tcp_writes (snd (forward_ws_to_tcp (\<lambda>k. None) None
      (map Message [Text [72, 101, 108, 108, 111], Binary [0, 255], Text [0x20AC]])))
     = [[72, 101, 108, 108, 111, 13, 10], [0, 255, 13, 10], [0xE2, 0x82, 0xAC, 13, 10]]"
proof -
  have h: "map to_bytes [Text [72, 101, 108, 108, 111], Binary [0, 255], Text [0x20AC]]
      = map Inr [[72, 101, 108, 108, 111], [0, 255], [0xE2, 0x82, 0xAC]]"
    by (simp add: utf8_char_def)
  have d: "\<forall>k. (\<lambda>k. None :: exn option) k = None" by simp
  from ws_to_tcp_normalize_and_delimit [OF d h, of None]
  show ?thesis by (simp add: encode_def CRLF_def)
qed

text \<open>
  C10 (empty message). A zero-length message, text or binary, received after any
  messages \<open>ms\<close>, is written as exactly the two delimiter bytes: the delimiter is
  appended unconditionally and the empty message is not skipped.
\<close>

theorem empty_message_writes_delimiter:
  assumes "\<forall>k. drain k = None" and "map to_bytes ms = map Inr bs"
    and "m = Text [] \<or> m = Binary []"
  shows "tcp_writes (snd (forward_ws_to_tcp drain wc (map Message (ms @ [m])))) =
     map encode bs @ [[13, 10]]"
proof -
  from assms(3) have "to_bytes m = Inr []" by auto
  with assms(2) have "map to_bytes (ms @ [m]) = map Inr (bs @ [[]])" by simp
  from forward_ws_to_tcp_writes(1) [OF assms(1) this, of wc]
  show ?thesis by (simp add: encode_def CRLF_def)
qed

theorem empty_message_writes_delimiter_witness:
  "tcp_writes (snd (forward_ws_to_tcp (\<lambda>k. None) None (map Message ([] @ [Text []])))) = [[13, 10]]
   \<and> tcp_writes (snd (forward_ws_to_tcp (\<lambda>k. None) None (map Message ([Binary [65]] @ [Binary []]))))
       = [[65, 13, 10], [13, 10]]"
proof -
  have d: "\<forall>k. (\<lambda>k. None :: exn option) k = None" by simp
  have h1: "map to_bytes [] = map Inr []" by simp
  have h2: "map to_bytes [Binary [65]] = map Inr [[65]]" by simp
  from empty_message_writes_delimiter [OF d h1, of "Text []" None]
    empty_message_writes_delimiter [OF d h2, of "Binary []" None]
  show ?thesis by (simp add: encode_def CRLF_def)
qed


section \<open>Which forwarder closes the TCP writer\<close>

lemma send_loop_no_close:
  "TcpClose \<notin> set tr \<and> TcpWaitClosed \<notin> set tr \<Longrightarrow>
     send_loop send buffer k tr = (r, buffer', k', tr') \<Longrightarrow>
     TcpClose \<notin> set tr' \<and> TcpWaitClosed \<notin> set tr'"
proof (induction send buffer k tr rule: send_loop.induct)
  case (1 send buffer k tr)
  show ?case
  proof (cases "contains_bytes CRLF buffer")
    case False
    with "1.prems" show ?thesis by simp
  next
    case True
    obtain m sp rest where p: "partition_bytes CRLF buffer = (m, sp, rest)"
      by (cases "partition_bytes CRLF buffer") auto
    show ?thesis
    proof (cases "send k")
      case None
      have "send_loop send buffer k tr =
          send_loop send rest (Suc k) (tr @ [Log INFO ''TCP -> WS'', WsSend m])"
        by (subst send_loop.simps) (simp add: True p None)
      with "1.prems"(2) have
        "send_loop send rest (Suc k) (tr @ [Log INFO ''TCP -> WS'', WsSend m]) = (r, buffer', k', tr')"
        by simp
      moreover from "1.prems"(1) have
        "TcpClose \<notin> set (tr @ [Log INFO ''TCP -> WS'', WsSend m]) \<and>
         TcpWaitClosed \<notin> set (tr @ [Log INFO ''TCP -> WS'', WsSend m])" by simp
      ultimately show ?thesis
        using "1.IH" [OF True p [symmetric] refl None] by blast
    next
      case (Some e)
      have "send_loop send buffer k tr =
          (if e = ConnectionClosed
           then (None, rest, Suc k,
                 tr @ [Log INFO ''TCP -> WS'', WsSend m,
                       Log WARNING ''WebSocket client disconnected during forwarding''])
           else (Some e, rest, Suc k, tr @ [Log INFO ''TCP -> WS'', WsSend m]))"
        by (subst send_loop.simps) (simp add: True p Some)
      with "1.prems" show ?thesis by (auto split: if_splits)
    qed
  qed
qed

lemma read_loop_no_close:
  "TcpClose \<notin> set tr \<and> TcpWaitClosed \<notin> set tr \<Longrightarrow>
     TcpClose \<notin> set (snd (read_loop send reads buffer k tr)) \<and>
     TcpWaitClosed \<notin> set (snd (read_loop send reads buffer k tr))"
proof (induction send reads buffer k tr rule: read_loop.induct)
  case (1 send buffer k tr)
  then show ?case by simp
next
  case (2 send e rs buffer k tr)
  then show ?case by simp
next
  case (3 send data rs buffer k tr)
  show ?case
  proof (cases "data = []")
    case True
    with "3.prems" show ?thesis by simp
  next
    case False
    obtain r b' k' tr' where s: "send_loop send (buffer @ data) k (tr @ [TcpRead]) = (r, b', k', tr')"
      by (cases "send_loop send (buffer @ data) k (tr @ [TcpRead])") auto
    from "3.prems" have "TcpClose \<notin> set (tr @ [TcpRead]) \<and> TcpWaitClosed \<notin> set (tr @ [TcpRead])"
      by simp
    from send_loop_no_close [OF this s]
    have n: "TcpClose \<notin> set tr' \<and> TcpWaitClosed \<notin> set tr'" .
    show ?thesis
    proof (cases r)
      case None
      with "3.IH" [OF False s [symmetric] None refl refl n] False s show ?thesis by simp
    next
      case (Some e)
      with False s n show ?thesis by simp
    qed
  qed
qed

lemma forward_tcp_to_ws_no_close:
  "TcpClose \<notin> set (snd (forward_tcp_to_ws send reads)) \<and>
   TcpWaitClosed \<notin> set (snd (forward_tcp_to_ws send reads))"
proof -
  obtain out tr where r:
    "read_loop send reads [] 0 [Log INFO ''Started forwarding from TCP to WS''] = (out, tr)"
    by (cases "read_loop send reads [] 0 [Log INFO ''Started forwarding from TCP to WS'']") auto
  from read_loop_no_close [of "[Log INFO ''Started forwarding from TCP to WS'']" send reads "[]" 0] r
  have "TcpClose \<notin> set tr \<and> TcpWaitClosed \<notin> set tr" by simp
  with r show ?thesis by (cases out) (simp_all add: forward_tcp_to_ws_def)
qed

lemma message_loop_no_close:
  "TcpClose \<notin> set tr \<and> TcpWaitClosed \<notin> set tr \<Longrightarrow>
     TcpClose \<notin> set (snd (message_loop drain rs k tr)) \<and>
     TcpWaitClosed \<notin> set (snd (message_loop drain rs k tr))"
  by (induction drain rs k tr rule: message_loop.induct)
    (simp_all split: sum.splits option.splits)

lemma close_writer_trace:
  "fst (close_writer wc out tr) = (case wc of None \<Rightarrow> out | Some e \<Rightarrow> Raised e) \<and>
   snd (close_writer wc out tr) =
     tr @ [Log INFO ''WebSocket connection handler exited'', TcpClose, TcpWaitClosed]"
  by (simp add: close_writer_def Let_def split: option.splits)

lemma forward_ws_to_tcp_closes:
  assumes "fst (forward_ws_to_tcp drain wc rs) \<noteq> Suspended"
  shows "\<exists>tr. snd (forward_ws_to_tcp drain wc rs) =
           tr @ [Log INFO ''WebSocket connection handler exited'', TcpClose, TcpWaitClosed] \<and>
         TcpClose \<notin> set tr \<and> TcpWaitClosed \<notin> set tr"
    and "fst (forward_ws_to_tcp drain wc rs) = Returned \<Longrightarrow> wc = None"
proof -
  obtain out tr where r:
    "message_loop drain rs 0 [Log INFO ''Started forwarding from WS to TCP''] = (out, tr)"
    by (cases "message_loop drain rs 0 [Log INFO ''Started forwarding from WS to TCP'']") auto
  from message_loop_no_close [of "[Log INFO ''Started forwarding from WS to TCP'']" drain rs 0] r
  have n: "TcpClose \<notin> set tr \<and> TcpWaitClosed \<notin> set tr" by simp
  from assms r have ns: "out \<noteq> Suspended"
    by (cases out) (simp_all add: forward_ws_to_tcp_def)
  from r ns n show "\<exists>tr. snd (forward_ws_to_tcp drain wc rs) =
           tr @ [Log INFO ''WebSocket connection handler exited'', TcpClose, TcpWaitClosed] \<and>
         TcpClose \<notin> set tr \<and> TcpWaitClosed \<notin> set tr"
    by (cases out) (auto simp: forward_ws_to_tcp_def close_writer_trace)
  assume "fst (forward_ws_to_tcp drain wc rs) = Returned"
  with r show "wc = None"
    by (cases out; cases wc) (auto simp: forward_ws_to_tcp_def close_writer_trace split: if_splits)
qed

text \<open>
  C8 (transport-close ownership). Whenever the WebSocket to TCP forwarder leaves
  (it returns or raises, after the end of the messages, a closed channel, a
  cancellation or any other exception), the last things it did are the log record
  of its \<open>finally\<close> block, \<open>writer.close()\<close> and \<open>writer.wait_closed()\<close>, once
  each; and when it returns, \<open>wait_closed\<close> has completed. No trace of the TCP to
  WebSocket forwarder contains a close or a wait for a close.
\<close>

theorem transport_close_ownership:
  "(fst (forward_ws_to_tcp drain wc rs) \<noteq> Suspended \<longrightarrow>
      (\<exists>tr. snd (forward_ws_to_tcp drain wc rs) =
           tr @ [Log INFO ''WebSocket connection handler exited'', TcpClose, TcpWaitClosed] \<and>
         TcpClose \<notin> set tr \<and> TcpWaitClosed \<notin> set tr) \<and>
      (fst (forward_ws_to_tcp drain wc rs) = Returned \<longrightarrow> wc = None)) \<and>
   TcpClose \<notin> set (snd (forward_tcp_to_ws send reads)) \<and>
   TcpWaitClosed \<notin> set (snd (forward_tcp_to_ws send reads))"
  using forward_ws_to_tcp_closes [of drain wc rs] forward_tcp_to_ws_no_close [of send reads]
  by blast


theorem transport_close_ownership_witness:
  "fst (forward_ws_to_tcp (\<lambda>k. None) None [Message (Binary [65]), RecvRaised CancelledError])
     = Returned \<and>
   (\<exists>tr. snd (forward_ws_to_tcp (\<lambda>k. None) None
              [Message (Binary [65]), RecvRaised CancelledError]) =
           tr @ [Log INFO ''WebSocket connection handler exited'', TcpClose, TcpWaitClosed] \<and>
         TcpClose \<notin> set tr \<and> TcpWaitClosed \<notin> set tr) \<and>
   TcpClose \<notin> set (snd (forward_tcp_to_ws (\<lambda>k. None) [Inr [65, 13, 10], Inr []]))"
proof -
  have h: "fst (forward_ws_to_tcp (\<lambda>k. None) None
      [Message (Binary [65]), RecvRaised CancelledError]) = Returned"
    by (simp add: forward_ws_to_tcp_def close_writer_def Let_def)
  from transport_close_ownership [of "\<lambda>k. None" None
      "[Message (Binary [65]), RecvRaised CancelledError]" "\<lambda>k. None" "[Inr [65, 13, 10], Inr []]"] h
  show ?thesis by simp
qed

section \<open>A failed send in the TCP to WebSocket forwarder\<close>

text \<open>
  C2. The claim is that after a \<open>send\<close> which fails because the channel is
  closed the forwarder stops, with no further read or send. The \<open>break\<close> of line 79
  leaves the inner loop only. Here every \<open>send\<close> raises \<open>ConnectionClosed\<close> and
  the peer writes two frames, then a third, then closes: after the failed send of the
  first frame the forwarder reads again, attempts to send the second frame, reads
  again, and leaves only at the end of the TCP stream. The failure is not propagated:
  the forwarder returns.
\<close>

theorem send_failure_keeps_forwarding:
  "forward_tcp_to_ws (\<lambda>k. Some ConnectionClosed)
     [Inr [65, 13, 10, 66, 13, 10], Inr [67, 13, 10], Inr []] =
   (Returned,
    [Log INFO ''Started forwarding from TCP to WS'',
     TcpRead,
     Log INFO ''TCP -> WS'', WsSend [65],
     Log WARNING ''WebSocket client disconnected during forwarding'',
     TcpRead,
     Log INFO ''TCP -> WS'', WsSend [66],
     Log WARNING ''WebSocket client disconnected during forwarding'',
     TcpRead,
     Log INFO ''TCP connection closed by peer'',
     Log INFO ''TCP connection handler exited''])"
  by (simp add: forward_tcp_to_ws_def contains_bytes_def partition_bytes_def CRLF_def)

section \<open>Properties of the session coordinator\<close>



















section \<open>Properties of the bridge lifecycle\<close>

lemma start_running:
  "ws_server_runner_task a = Some t \<Longrightarrow> \<not> task_done t \<Longrightarrow> start a = a"
  by (simp add: start_def)

lemma start_start: "start (start a) = start a"
  by (simp add: start_def split: option.splits)

lemma start_creates_at_most_one:
  "count_list (events (start (start a))) (CreateTask ''_ws_server_runner'')
     \<le> Suc (count_list (events a) (CreateTask ''_ws_server_runner''))"
  by (simp add: start_start) (simp add: start_def)

lemma start_twice_one_endpoint:
  "ws_server_runner (ServeDone None) (ws_server_runner TaskRuns (start (start (init th tp wh wp bs))))
     = (init th tp wh wp bs)
         \<lparr>ws_server := Some Serving, ws_server_runner_task := Some AwaitingClosed,
          events := [CreateTask ''_ws_server_runner'', Log INFO ''Server started successfully.'',
                     Serve, Log INFO ''WebSocket server started'']\<rparr>"
  by (simp add: start_def init_def)

text \<open>
  C3 (idempotent start). In every state of the adapter in which a runner task
  exists and is not done, \<open>start\<close> changes nothing: no task is created and nothing
  is logged. So a second \<open>start\<close> directly after a first one is without effect, two
  calls create at most one task, and on a fresh adapter the two calls followed by the
  run of the task up to the bound server leave one task, one call of \<open>serve\<close> and
  one serving endpoint.
\<close>

theorem idempotent_start:
  "(\<forall>t. ws_server_runner_task a = Some t \<and> \<not> task_done t \<longrightarrow> start a = a) \<and>
   start (start a) = start a \<and>
   count_list (events (start (start a))) (CreateTask ''_ws_server_runner'')
     \<le> Suc (count_list (events a) (CreateTask ''_ws_server_runner'')) \<and>
   ws_server_runner (ServeDone None)
       (ws_server_runner TaskRuns (start (start (init th tp wh wp bs))))
     = (init th tp wh wp bs)
         \<lparr>ws_server := Some Serving, ws_server_runner_task := Some AwaitingClosed,
          events := [CreateTask ''_ws_server_runner'', Log INFO ''Server started successfully.'',
                     Serve, Log INFO ''WebSocket server started'']\<rparr>"
proof (intro conjI allI impI)
  fix t assume "ws_server_runner_task a = Some t \<and> \<not> task_done t"
  then show "start a = a" using start_running [of a t] by blast
qed (rule start_start start_creates_at_most_one start_twice_one_endpoint)+


theorem idempotent_start_witness:
  "ws_server_runner_task (start (init ''localhost'' 4242 ''localhost'' 5050 1024)) = Some Created \<and>
   \<not> task_done Created \<and>
   start (start (init ''localhost'' 4242 ''localhost'' 5050 1024))
     = start (init ''localhost'' 4242 ''localhost'' 5050 1024)"
proof -
  have h: "ws_server_runner_task (start (init ''localhost'' 4242 ''localhost'' 5050 1024))
      = Some Created \<and> \<not> task_done Created"
    by (simp add: start_def init_def)
  from idempotent_start [of "start (init ''localhost'' 4242 ''localhost'' 5050 1024)"] h
  show ?thesis by blast
qed

lemma close_server_idle: "ws_server a = None \<Longrightarrow> close_server env a = (Returned, a)"
  by (simp add: close_server_def)

lemma stop_after_close:
  assumes "close_server env a = (Returned, a1)"
  shows "fst (stop env a) = Returned \<and> ws_server (snd (stop env a)) = None \<and>
     ws_server_runner_task (snd (stop env a)) = None"
proof (cases "ws_server_runner_task a1")
  case None
  with assms show ?thesis by (simp add: stop_def clear_handles_def)
next
  case (Some t)
  with assms show ?thesis
    by (cases t) (simp_all add: stop_def Let_def clear_handles_def cancel_task_def)
qed

lemma close_server_completes:
  "ws_server a = None \<or> ws_server a = Some Closed \<or> server_wait_closed env = Returned \<Longrightarrow>
     fst (close_server env a) = Returned"
  by (auto simp: close_server_def Let_def split: option.splits)

lemma stop_completes:
  assumes "ws_server a = None \<or> ws_server a = Some Closed \<or> server_wait_closed env = Returned"
  shows "fst (stop env a) = Returned \<and> ws_server (snd (stop env a)) = None \<and>
     ws_server_runner_task (snd (stop env a)) = None"
proof -
  from close_server_completes [OF assms] obtain a1 where "close_server env a = (Returned, a1)"
    by (cases "close_server env a") auto
  then show ?thesis by (rule stop_after_close)
qed

lemma stop_idle:
  "ws_server a = None \<Longrightarrow> ws_server_runner_task a = None \<Longrightarrow>
     stop env a = (Returned, a\<lparr>events := events a @ [Log INFO ''Server resources cleaned up.'']\<rparr>)"
  by (simp add: stop_def close_server_idle clear_handles_def)

lemma stop_waits_for_server:
  assumes "ws_server a = Some s" "s \<noteq> Closed" "server_wait_closed env \<noteq> Returned"
  shows "stop env a =
     (server_wait_closed env,
      a\<lparr>ws_server := Some Closing, events := events a @ [ServerClose, ServerWaitClosed]\<rparr>)"
  using assms
  by (cases "server_wait_closed env") (simp_all add: stop_def close_server_def Let_def)

text \<open>
  C4 (idempotent stop), amended. Whenever no server handle is set, or the server
  is closed already, or the wait for the server's close at line 162 completes,
  \<open>stop\<close> returns without raising and leaves both handles \<open>None\<close>, and a second
  \<open>stop\<close> after it does the same in every environment. On an adapter whose
  handles are already \<open>None\<close>, \<open>stop\<close> only logs that the resources are cleaned
  up. When a server is set and the wait for its close does not complete, \<open>stop\<close>
  ends as that wait does, suspended or with its exception, and the handles stay set.
\<close>

theorem idempotent_stop:
  "(ws_server a = None \<or> ws_server a = Some Closed \<or> server_wait_closed env = Returned \<longrightarrow>
      fst (stop env a) = Returned \<and>
      ws_server (snd (stop env a)) = None \<and> ws_server_runner_task (snd (stop env a)) = None \<and>
      fst (stop env' (snd (stop env a))) = Returned \<and>
      ws_server (snd (stop env' (snd (stop env a)))) = None \<and>
      ws_server_runner_task (snd (stop env' (snd (stop env a)))) = None) \<and>
   (ws_server a = None \<and> ws_server_runner_task a = None \<longrightarrow>
      stop env a = (Returned, a\<lparr>events := events a @ [Log INFO ''Server resources cleaned up.'']\<rparr>)) \<and>
   (\<forall>s. ws_server a = Some s \<and> s \<noteq> Closed \<and> server_wait_closed env \<noteq> Returned \<longrightarrow>
      stop env a =
        (server_wait_closed env,
         a\<lparr>ws_server := Some Closing, events := events a @ [ServerClose, ServerWaitClosed]\<rparr>))"
proof (intro conjI allI impI)
  assume h: "ws_server a = None \<or> ws_server a = Some Closed \<or> server_wait_closed env = Returned"
  note 1 = stop_completes [OF h]
  from 1 have "ws_server (snd (stop env a)) = None \<or> ws_server (snd (stop env a)) = Some Closed \<or>
      server_wait_closed env' = Returned" by simp
  note 2 = stop_completes [OF this]
  from 1 show "fst (stop env a) = Returned" "ws_server (snd (stop env a)) = None"
    "ws_server_runner_task (snd (stop env a)) = None" by simp_all
  from 2 show "fst (stop env' (snd (stop env a))) = Returned"
    "ws_server (snd (stop env' (snd (stop env a)))) = None"
    "ws_server_runner_task (snd (stop env' (snd (stop env a)))) = None" by simp_all
next
  assume "ws_server a = None \<and> ws_server_runner_task a = None"
  then show "stop env a =
      (Returned, a\<lparr>events := events a @ [Log INFO ''Server resources cleaned up.'']\<rparr>)"
    by (simp add: stop_idle)
next
  fix s assume "ws_server a = Some s \<and> s \<noteq> Closed \<and> server_wait_closed env \<noteq> Returned"
  then have "ws_server a = Some s" "s \<noteq> Closed" "server_wait_closed env \<noteq> Returned"
    by simp_all
  then show "stop env a =
        (server_wait_closed env,
         a\<lparr>ws_server := Some Closing, events := events a @ [ServerClose, ServerWaitClosed]\<rparr>)"
    by (rule stop_waits_for_server)
qed

theorem idempotent_stop_witness:
  "fst (stop \<lparr>server_wait_closed = Returned, runner_first = False, stop_cancelled = False\<rparr>
       ((init ''localhost'' 4242 ''localhost'' 5050 1024)
          \<lparr>ws_server := Some Serving, ws_server_runner_task := Some AwaitingClosed\<rparr>))
     = Returned \<and>
   ws_server (snd (stop \<lparr>server_wait_closed = Returned, runner_first = False,
                          stop_cancelled = False\<rparr>
       ((init ''localhost'' 4242 ''localhost'' 5050 1024)
          \<lparr>ws_server := Some Serving, ws_server_runner_task := Some AwaitingClosed\<rparr>)))
     = None \<and>
   ws_server_runner_task (snd (stop \<lparr>server_wait_closed = Returned, runner_first = False,
                                      stop_cancelled = False\<rparr>
       ((init ''localhost'' 4242 ''localhost'' 5050 1024)
          \<lparr>ws_server := Some Serving, ws_server_runner_task := Some AwaitingClosed\<rparr>)))
     = None \<and>
   stop \<lparr>server_wait_closed = Suspended, runner_first = False, stop_cancelled = False\<rparr>
       (init ''localhost'' 4242 ''localhost'' 5050 1024) =
     (Returned,
      (init ''localhost'' 4242 ''localhost'' 5050 1024)
        \<lparr>events := [Log INFO ''Server resources cleaned up.'']\<rparr>) \<and>
   stop \<lparr>server_wait_closed = Raised CancelledError, runner_first = False,
         stop_cancelled = False\<rparr>
       ((init ''localhost'' 4242 ''localhost'' 5050 1024)
          \<lparr>ws_server := Some Serving, ws_server_runner_task := Some AwaitingClosed\<rparr>) =
     (Raised CancelledError,
      (init ''localhost'' 4242 ''localhost'' 5050 1024)
        \<lparr>ws_server := Some Closing, ws_server_runner_task := Some AwaitingClosed,
         events := [ServerClose, ServerWaitClosed]\<rparr>)"
proof -
  let ?idle = "init ''localhost'' 4242 ''localhost'' 5050 1024"
  let ?serving = "?idle\<lparr>ws_server := Some Serving, ws_server_runner_task := Some AwaitingClosed\<rparr>"
  let ?ok = "\<lparr>server_wait_closed = Returned, runner_first = False, stop_cancelled = False\<rparr>"
  let ?susp = "\<lparr>server_wait_closed = Suspended, runner_first = False, stop_cancelled = False\<rparr>"
  let ?canc = "\<lparr>server_wait_closed = Raised CancelledError, runner_first = False,
      stop_cancelled = False\<rparr>"
  have h1: "ws_server ?serving = None \<or> ws_server ?serving = Some Closed \<or>
      server_wait_closed ?ok = Returned" by simp
  have h2: "ws_server ?idle = None \<and> ws_server_runner_task ?idle = None"
    by (simp add: init_def)
  have h3: "ws_server ?serving = Some Serving \<and> Serving \<noteq> Closed \<and>
      server_wait_closed ?canc \<noteq> Returned" by simp
  have e: "events ?idle = []" by (simp add: init_def)
  from idempotent_stop [of ?serving ?ok ?ok] h1
  have 1: "fst (stop ?ok ?serving) = Returned \<and> ws_server (snd (stop ?ok ?serving)) = None \<and>
      ws_server_runner_task (snd (stop ?ok ?serving)) = None" by blast
  from idempotent_stop [of ?idle ?susp ?susp] h2
  have "stop ?susp ?idle =
      (Returned, ?idle\<lparr>events := events ?idle @ [Log INFO ''Server resources cleaned up.'']\<rparr>)"
    by blast
  then have 2: "stop ?susp ?idle =
      (Returned, ?idle\<lparr>events := [Log INFO ''Server resources cleaned up.'']\<rparr>)"
    by (simp only: e append_Nil)
  from idempotent_stop [of ?serving ?canc ?canc] h3
  have "stop ?canc ?serving =
      (server_wait_closed ?canc,
       ?serving\<lparr>ws_server := Some Closing,
                 events := events ?serving @ [ServerClose, ServerWaitClosed]\<rparr>)"
    by blast
  then have 3: "stop ?canc ?serving =
      (Raised CancelledError,
       ?idle\<lparr>ws_server := Some Closing, ws_server_runner_task := Some AwaitingClosed,
              events := [ServerClose, ServerWaitClosed]\<rparr>)"
    by (simp add: init_def)
  from 1 2 3 show ?thesis by (simp only: simp_thms)
qed

text \<open>
  C4, as it is worded, for every state of the adapter. The server is serving and the
  wait for its close does not complete, as while a connection handler does not end:
  \<open>stop\<close> does not return, and the two handles are still set.
\<close>

theorem idempotent_stop_counterexample:
  "fst (stop \<lparr>server_wait_closed = Suspended, runner_first = False, stop_cancelled = False\<rparr>
       ((init ''localhost'' 4242 ''localhost'' 5050 1024)
          \<lparr>ws_server := Some Serving, ws_server_runner_task := Some AwaitingClosed\<rparr>))
     = Suspended \<and>
   ws_server (snd (stop \<lparr>server_wait_closed = Suspended, runner_first = False,
                          stop_cancelled = False\<rparr>
       ((init ''localhost'' 4242 ''localhost'' 5050 1024)
          \<lparr>ws_server := Some Serving, ws_server_runner_task := Some AwaitingClosed\<rparr>)))
     = Some Closing \<and>
   ws_server_runner_task (snd (stop \<lparr>server_wait_closed = Suspended, runner_first = False,
                                      stop_cancelled = False\<rparr>
       ((init ''localhost'' 4242 ''localhost'' 5050 1024)
          \<lparr>ws_server := Some Serving, ws_server_runner_task := Some AwaitingClosed\<rparr>)))
     = Some AwaitingClosed"
  by (simp add: stop_def close_server_def Let_def init_def)

text \<open>
  A serving adapter whose server closes: the runner returns, or is cancelled when
  \<open>stop\<close> resumes first, and both handles are cleared.
\<close>

lemma stop_serving_example:
  "stop \<lparr>server_wait_closed = Returned, runner_first = True, stop_cancelled = False\<rparr>
       ((init ''localhost'' 4242 ''localhost'' 5050 1024)
          \<lparr>ws_server := Some Serving, ws_server_runner_task := Some AwaitingClosed\<rparr>) =
     (Returned,
      (init ''localhost'' 4242 ''localhost'' 5050 1024)
        \<lparr>events := [ServerClose, ServerWaitClosed, Log INFO ''Server stopped gracefully.'',
                     TaskCancel, TaskAwait, Log INFO ''Server resources cleaned up.'']\<rparr>)"
  "stop \<lparr>server_wait_closed = Returned, runner_first = False, stop_cancelled = False\<rparr>
       ((init ''localhost'' 4242 ''localhost'' 5050 1024)
          \<lparr>ws_server := Some Serving, ws_server_runner_task := Some AwaitingClosed\<rparr>) =
     (Returned,
      (init ''localhost'' 4242 ''localhost'' 5050 1024)
        \<lparr>events := [ServerClose, ServerWaitClosed, Log INFO ''Server stopped gracefully.'',
                     TaskCancel, TaskAwait, Log INFO ''WebSocket server task was cancelled.'',
                     Log INFO ''Server resources cleaned up.'']\<rparr>)"
  by (simp_all add: stop_def close_server_def clear_handles_def cancel_task_def init_def Let_def)

end
